theory Spec2Isabelle
  imports Complex_Main
begin

section \<open>Data model\<close>

text \<open>
  Python floats are modelled as real numbers (no rounding, no NaN). The one infinite
  value the program uses, the default timeout \<^verbatim>\<open>float("inf")\<close>, is the constructor
  \<open>Infinite\<close> of a type of its own. Python integers are \<open>int\<close>. An attribute that can
  be \<^verbatim>\<open>None\<close> is an \<open>option\<close>. Objects held by reference in a list are identified with
  their position in that list.
\<close>

datatype error = ValueError | RuntimeError | TypeError | ZeroDivisionError | IndexError

datatype timeout_val = Finite real | Infinite

record request =
  request_id :: int
  arrival_time :: real
  service_time :: real
  timeout :: timeout_val
  start_service_time :: "real option"
  completion_time :: "real option"

record server =
  server_id :: int
  service_rate :: real
  queue :: "request list"
  current_request :: "request option"
  completed :: "request list"

record load_balancer =
  servers :: "server list"
  algorithm :: string
  rr_index :: int

record metrics =
  completed_requests :: int
  dropped_requests :: int
  total_response_time :: real
  response_times :: "real list"

section \<open>request.py\<close>

text \<open>
  \<^verbatim>\<open>ClientRequest.__init__\<close>: the class-level counter \<^verbatim>\<open>_id_counter\<close> is state of the
  whole process, so the constructor takes it and returns it incremented.
\<close>

definition new_request :: "int \<Rightarrow> real \<Rightarrow> real \<Rightarrow> timeout_val \<Rightarrow> request \<times> int" where
  "new_request id_counter arrival service tmo =
     (let id_counter' = id_counter + 1 in
      (\<lparr>request_id = id_counter', arrival_time = arrival, service_time = service,
        timeout = tmo, start_service_time = None, completion_time = None\<rparr>,
       id_counter'))"


definition response_time :: "request \<Rightarrow> real option" where
  "response_time r =
     (case completion_time r of None \<Rightarrow> None | Some c \<Rightarrow> Some (c - arrival_time r))"

text \<open>\<^verbatim>\<open>x > timeout\<close> on floats: nothing exceeds \<^verbatim>\<open>inf\<close>.\<close>

definition exceeds :: "real \<Rightarrow> timeout_val \<Rightarrow> bool" where
  "exceeds x tmo = (case tmo of Finite b \<Rightarrow> x > b | Infinite \<Rightarrow> False)"

definition is_timed_out :: "request \<Rightarrow> real \<Rightarrow> bool" where
  "is_timed_out r current_time =
     (if start_service_time r \<noteq> None then False
      else exceeds (current_time - arrival_time r) (timeout r))"

section \<open>server.py\<close>

definition new_server :: "int \<Rightarrow> real \<Rightarrow> server" where
  "new_server sid rate =
     \<lparr>server_id = sid, service_rate = rate, queue = [], current_request = None,
      completed = []\<rparr>"

definition enqueue :: "server \<Rightarrow> request \<Rightarrow> server" where
  "enqueue s r = s\<lparr>queue := queue s @ [r]\<rparr>"

definition queue_length :: "server \<Rightarrow> nat" where
  "queue_length s = length (queue s)"

definition is_busy :: "server \<Rightarrow> bool" where
  "is_busy s = (current_request s \<noteq> None)"

text \<open>
  Step 1 of \<^verbatim>\<open>tick\<close>. Comparing the clock with a completion time that is \<^verbatim>\<open>None\<close>
  raises \<^verbatim>\<open>TypeError\<close> in Python.
\<close>

definition tick_finish :: "server \<Rightarrow> real \<Rightarrow> error + (server \<times> request list)" where
  "tick_finish s current_time =
     (case current_request s of
        None \<Rightarrow> Inr (s, [])
      | Some req \<Rightarrow>
          (case completion_time req of
             None \<Rightarrow> Inl TypeError
           | Some c \<Rightarrow>
               if current_time \<ge> c then
                 (let req' = req\<lparr>completion_time := Some current_time\<rparr> in
                  Inr (s\<lparr>completed := completed s @ [req'], current_request := None\<rparr>,
                       [req']))
               else Inr (s, [])))"

text \<open>Step 2 of \<^verbatim>\<open>tick\<close>.\<close>

definition tick_start :: "server \<Rightarrow> real \<Rightarrow> server" where
  "tick_start s current_time =
     (if current_request s = None \<and> queue s \<noteq> [] then
        (let next_req = hd (queue s);
             next_req' = next_req\<lparr>start_service_time := Some current_time,
                                  completion_time := Some (current_time + service_time next_req)\<rparr>
         in s\<lparr>queue := tl (queue s), current_request := Some next_req'\<rparr>)
      else s)"

definition tick :: "server \<Rightarrow> real \<Rightarrow> error + (server \<times> request list)" where
  "tick s current_time =
     (case tick_finish s current_time of
        Inl e \<Rightarrow> Inl e
      | Inr (s1, completed_this_tick) \<Rightarrow> Inr (tick_start s1 current_time, completed_this_tick))"

text \<open>The \<^verbatim>\<open>for\<close> loop of \<^verbatim>\<open>drop_timed_out\<close>, with its two accumulators.\<close>

fun drop_loop :: "request list \<Rightarrow> real \<Rightarrow> request list \<Rightarrow> request list
                  \<Rightarrow> request list \<times> request list" where
  "drop_loop [] current_time timed_out remaining = (timed_out, remaining)"
| "drop_loop (req # rest) current_time timed_out remaining =
     (if is_timed_out req current_time
      then drop_loop rest current_time (timed_out @ [req]) remaining
      else drop_loop rest current_time timed_out (remaining @ [req]))"

definition drop_timed_out :: "server \<Rightarrow> real \<Rightarrow> server \<times> request list" where
  "drop_timed_out s current_time =
     (case drop_loop (queue s) current_time [] [] of
        (timed_out, remaining) \<Rightarrow> (s\<lparr>queue := remaining\<rparr>, timed_out))"

section \<open>load\_balancer.py\<close>

definition ALGORITHMS :: "string list" where
  "ALGORITHMS = [''round_robin'', ''least_loaded'']"

definition new_load_balancer :: "server list \<Rightarrow> string \<Rightarrow> error + load_balancer" where
  "new_load_balancer svs alg =
     (if alg \<notin> set ALGORITHMS then Inl ValueError
      else Inr \<lparr>servers = svs, algorithm = alg, rr_index = 0\<rparr>)"

text \<open>
  \<^verbatim>\<open>_round_robin\<close> returns the chosen server, here its position in the list. Python's
  \<^verbatim>\<open>%\<close> with a positive divisor is never negative, like \<open>mod\<close> on \<open>int\<close>; with
  divisor zero it raises.
\<close>

definition round_robin :: "load_balancer \<Rightarrow> error + (nat \<times> load_balancer)" where
  "round_robin lb =
     (if length (servers lb) = 0 then Inl ZeroDivisionError
      else Inr (nat (rr_index lb mod int (length (servers lb))),
                lb\<lparr>rr_index := rr_index lb + 1\<rparr>))"

text \<open>
  \<^verbatim>\<open>min(iterable, key=...)\<close>: one pass that keeps the first item seen and replaces it
  only by an item whose key is strictly smaller; it raises \<^verbatim>\<open>ValueError\<close> on an
  empty iterable.
\<close>

fun min_loop :: "server list \<Rightarrow> nat \<Rightarrow> nat \<Rightarrow> nat \<Rightarrow> nat" where
  "min_loop [] i best best_key = best"
| "min_loop (s # rest) i best best_key =
     (if queue_length s < best_key then min_loop rest (i + 1) i (queue_length s)
      else min_loop rest (i + 1) best best_key)"

definition least_loaded :: "load_balancer \<Rightarrow> error + (nat \<times> load_balancer)" where
  "least_loaded lb =
     (case servers lb of
        [] \<Rightarrow> Inl ValueError
      | s # rest \<Rightarrow> Inr (min_loop rest 1 0 (queue_length s), lb))"

definition dispatch :: "load_balancer \<Rightarrow> request \<Rightarrow> error + (nat \<times> load_balancer)" where
  "dispatch lb req =
     (if servers lb = [] then Inl RuntimeError
      else
        (case (if algorithm lb = ''round_robin'' then round_robin lb else least_loaded lb) of
           Inl e \<Rightarrow> Inl e
         | Inr (target, lb') \<Rightarrow>
             Inr (target,
                  lb'\<lparr>servers := (servers lb')[target := enqueue (servers lb' ! target) req]\<rparr>)))"

section \<open>metrics.py\<close>

definition new_metrics :: metrics where
  "new_metrics =
     \<lparr>completed_requests = 0, dropped_requests = 0, total_response_time = 0,
      response_times = []\<rparr>"

definition record_completion :: "metrics \<Rightarrow> request \<Rightarrow> metrics" where
  "record_completion m r =
     (case response_time r of
        None \<Rightarrow> m
      | Some rt \<Rightarrow>
          m\<lparr>completed_requests := completed_requests m + 1,
            total_response_time := total_response_time m + rt,
            response_times := response_times m @ [rt]\<rparr>)"

definition record_drop :: "metrics \<Rightarrow> request \<Rightarrow> metrics" where
  "record_drop m r = m\<lparr>dropped_requests := dropped_requests m + 1\<rparr>"

definition total_requests :: "metrics \<Rightarrow> int" where
  "total_requests m = completed_requests m + dropped_requests m"

text \<open>\<^verbatim>\<open>int(x)\<close> on a float truncates towards zero.\<close>

definition py_int :: "real \<Rightarrow> int" where
  "py_int x = (if x \<ge> 0 then \<lfloor>x\<rfloor> else \<lceil>x\<rceil>)"

text \<open>
  \<^verbatim>\<open>percentile\<close>: the index is never negative (it is a \<^verbatim>\<open>max\<close> with 0); an index at or
  beyond the length raises \<^verbatim>\<open>IndexError\<close>.
\<close>

definition percentile :: "metrics \<Rightarrow> real \<Rightarrow> error + real" where
  "percentile m p =
     (if response_times m = [] then Inr 0
      else
        (let sorted_rt = sort (response_times m);
             idx = max 0 (py_int (real (length sorted_rt) * p / 100) - 1)
         in if idx < int (length sorted_rt) then Inr (sorted_rt ! nat idx)
            else Inl IndexError))"

section \<open>simulation\_engine.py\<close>

text \<open>
  The engine's \<^verbatim>\<open>servers\<close> attribute and the load balancer's are one and the same list
  object, so the model keeps the list in one place, inside \<open>load_balancer\<close>, and
  \<open>engine_servers\<close> reads it. The fields \<open>log_created\<close> and \<open>log_completed\<close> are
  observations, not attributes of the class: the requests constructed by \<^verbatim>\<open>run\<close>, and
  the requests passed to \<^verbatim>\<open>record_completion\<close> (as they are at that call), in order.
  No modelled computation reads them.
\<close>

record engine =
  arrival_rate :: real
  eng_service_rate :: real
  sim_duration :: real
  dt :: real
  request_timeout :: timeout_val
  clock :: real
  utilization :: real
  load_balancer :: load_balancer
  metrics :: metrics
  log_created :: "request list"
  log_completed :: "request list"

definition engine_servers :: "engine \<Rightarrow> server list" where
  "engine_servers e = servers (load_balancer e)"

definition set_servers :: "engine \<Rightarrow> server list \<Rightarrow> engine" where
  "set_servers e svs = e\<lparr>load_balancer := (load_balancer e)\<lparr>servers := svs\<rparr>\<rparr>"

text \<open>
  \<^verbatim>\<open>SimulationEngine.__init__\<close>. The utilisation is computed before the load balancer
  is built, so a zero divisor is reported first. \<^verbatim>\<open>range(n)\<close> is empty for \<open>n \<le> 0\<close>.
\<close>

definition new_engine :: "int \<Rightarrow> real \<Rightarrow> real \<Rightarrow> real \<Rightarrow> real \<Rightarrow> string \<Rightarrow> timeout_val
                          \<Rightarrow> error + engine" where
  "new_engine num_servers arr_rate srv_rate duration step alg tmo =
     (if real_of_int num_servers * srv_rate = 0 then Inl ZeroDivisionError
      else
        (case new_load_balancer
                (map (\<lambda>i. new_server (int i) srv_rate) [0..<nat num_servers]) alg of
           Inl err \<Rightarrow> Inl err
         | Inr lb \<Rightarrow>
             Inr \<lparr>arrival_rate = arr_rate, eng_service_rate = srv_rate,
                  sim_duration = duration, dt = step, request_timeout = tmo, clock = 0,
                  utilization = arr_rate / (real_of_int num_servers * srv_rate),
                  load_balancer = lb, metrics = new_metrics,
                  log_created = [], log_completed = []\<rparr>))"

text \<open>
  The arrivals of one tick. The pseudo-random draws are an input of the model: the
  list holds the service times drawn in this tick, one for each arrival, so its length
  is the Poisson draw. The scale \<^verbatim>\<open>1.0 / service_rate\<close> raises \<^verbatim>\<open>ZeroDivisionError\<close> for a
  zero rate, and \<^verbatim>\<open>numpy.random.exponential\<close> raises \<^verbatim>\<open>ValueError\<close> on a negative scale.
  The process-wide identifier counter is threaded through.
\<close>

fun arrivals_loop :: "real list \<Rightarrow> int \<times> engine \<Rightarrow> error + (int \<times> engine)" where
  "arrivals_loop [] (idc, e) = Inr (idc, e)"
| "arrivals_loop (service # rest) (idc, e) =
     (if eng_service_rate e = 0 then Inl ZeroDivisionError
      else if 1 / eng_service_rate e < 0 then Inl ValueError
      else
        (case new_request idc (clock e) service (request_timeout e) of
           (req, idc') \<Rightarrow>
             (case dispatch (load_balancer e) req of
                Inl err \<Rightarrow> Inl err
              | Inr (target, lb') \<Rightarrow>
                  arrivals_loop rest
                    (idc', e\<lparr>load_balancer := lb', log_created := log_created e @ [req]\<rparr>))))"

text \<open>Step 2 of a tick, over the servers in list order.\<close>

fun evict_servers :: "server list \<Rightarrow> real \<Rightarrow> metrics \<Rightarrow> server list \<times> metrics" where
  "evict_servers [] clk m = ([], m)"
| "evict_servers (s # rest) clk m =
     (case drop_timed_out s clk of
        (s', dropped) \<Rightarrow>
          (case evict_servers rest clk (foldl record_drop m dropped) of
             (rest', m') \<Rightarrow> (s' # rest', m')))"

text \<open>Step 3 of a tick, over the servers in list order.\<close>

fun tick_servers :: "server list \<Rightarrow> real \<Rightarrow> metrics \<times> request list
                     \<Rightarrow> error + (server list \<times> metrics \<times> request list)" where
  "tick_servers [] clk (m, lg) = Inr ([], m, lg)"
| "tick_servers (s # rest) clk (m, lg) =
     (case tick s clk of
        Inl err \<Rightarrow> Inl err
      | Inr (s', done) \<Rightarrow>
          (case tick_servers rest clk (foldl record_completion m done, lg @ done) of
             Inl err \<Rightarrow> Inl err
           | Inr (rest', r) \<Rightarrow> Inr (s' # rest', r)))"

text \<open>
  One iteration of the main loop. \<^verbatim>\<open>numpy.random.poisson\<close> raises \<^verbatim>\<open>ValueError\<close> on a
  negative mean.
\<close>

definition step :: "real list \<Rightarrow> int \<times> engine \<Rightarrow> error + (int \<times> engine)" where
  "step draws st =
     (case st of (idc, e0) \<Rightarrow>
        (let e1 = e0\<lparr>clock := clock e0 + dt e0\<rparr> in
         if arrival_rate e1 * dt e1 < 0 then Inl ValueError
         else
           (case arrivals_loop draws (idc, e1) of
              Inl err \<Rightarrow> Inl err
            | Inr (idc', e2) \<Rightarrow>
                (case evict_servers (engine_servers e2) (clock e2) (metrics e2) of
                   (svs3, m3) \<Rightarrow>
                     (case tick_servers svs3 (clock e2) (m3, log_completed e2) of
                        Inl err \<Rightarrow> Inl err
                      | Inr (svs4, m4, lg4) \<Rightarrow>
                          Inr (idc', (set_servers e2 svs4)
                                       \<lparr>metrics := m4, log_completed := lg4\<rparr>))))))"

fun run_loop :: "real list list \<Rightarrow> int \<times> engine \<Rightarrow> error + (int \<times> engine)" where
  "run_loop [] st = Inr st"
| "run_loop (draws # rest) st =
     (case step draws st of Inl err \<Rightarrow> Inl err | Inr st' \<Rightarrow> run_loop rest st')"

text \<open>\<^verbatim>\<open>a or b\<close> on an optional float: \<^verbatim>\<open>None\<close> and \<^verbatim>\<open>0.0\<close> are falsy.\<close>

definition py_or :: "real option \<Rightarrow> real \<Rightarrow> real" where
  "py_or a b = (case a of None \<Rightarrow> b | Some x \<Rightarrow> if x = 0 then b else x)"

text \<open>The assignment \<^verbatim>\<open>req.completion_time = req.completion_time or self.clock\<close>.\<close>

definition finalise :: "request \<Rightarrow> real \<Rightarrow> request" where
  "finalise req clk = req\<lparr>completion_time := Some (py_or (completion_time req) clk)\<rparr>"

fun drain_servers :: "server list \<Rightarrow> real \<Rightarrow> metrics \<times> request list
                      \<Rightarrow> server list \<times> metrics \<times> request list" where
  "drain_servers [] clk (m, lg) = ([], m, lg)"
| "drain_servers (s # rest) clk (m, lg) =
     (case current_request s of
        None \<Rightarrow>
          (case drain_servers rest clk (m, lg) of (rest', r) \<Rightarrow> (s # rest', r))
      | Some req \<Rightarrow>
          (let req' = finalise req clk in
           case drain_servers rest clk (record_completion m req', lg @ [req']) of
             (rest', r) \<Rightarrow> (s\<lparr>current_request := None\<rparr> # rest', r)))"

definition drain_remaining :: "engine \<Rightarrow> engine" where
  "drain_remaining e =
     (case drain_servers (engine_servers e) (clock e) (metrics e, log_completed e) of
        (svs, m, lg) \<Rightarrow> (set_servers e svs)\<lparr>metrics := m, log_completed := lg\<rparr>)"

text \<open>
  \<^verbatim>\<open>run\<close>. The draws of tick \<open>i\<close> (counted from 0) are \<open>draws i\<close>. A zero step raises
  \<^verbatim>\<open>ZeroDivisionError\<close>; \<^verbatim>\<open>range\<close> of a negative count is empty.
\<close>

definition run :: "(nat \<Rightarrow> real list) \<Rightarrow> int \<times> engine \<Rightarrow> error + (int \<times> engine)" where
  "run draws st =
     (case st of (idc, e) \<Rightarrow>
        if dt e = 0 then Inl ZeroDivisionError
        else
          (let num_ticks = py_int (sim_duration e / dt e) in
           case run_loop (map draws [0..<nat num_ticks]) (idc, e) of
             Inl err \<Rightarrow> Inl err
           | Inr (idc', e') \<Rightarrow> Inr (idc', drain_remaining e')))"

section \<open>Specification vocabulary\<close>

text \<open>
  A sequence of consecutive \<^verbatim>\<open>dispatch\<close> calls on one load balancer, as the arrival loop
  of \<^verbatim>\<open>run\<close> makes them. The result lists the chosen positions in call order.
\<close>

fun dispatch_all :: "load_balancer \<Rightarrow> request list \<Rightarrow> error + (nat list \<times> load_balancer)" where
  "dispatch_all lb [] = Inr ([], lb)"
| "dispatch_all lb (r # rs) =
     (case dispatch lb r of
        Inl err \<Rightarrow> Inl err
      | Inr (i, lb') \<Rightarrow>
          (case dispatch_all lb' rs of
             Inl err \<Rightarrow> Inl err
           | Inr (chosen, lb'') \<Rightarrow> Inr (i # chosen, lb'')))"

text \<open>
  A call on a metrics collector, and a sequence of such calls. A call is \<open>counted\<close>
  unless it is a \<^verbatim>\<open>record_completion\<close> of a request without a completion time, which
  the collector skips.
\<close>

datatype call = Completion request | Drop request

fun apply_call :: "metrics \<Rightarrow> call \<Rightarrow> metrics" where
  "apply_call m (Completion r) = record_completion m r"
| "apply_call m (Drop r) = record_drop m r"

fun counted :: "call \<Rightarrow> bool" where
  "counted (Completion r) = (completion_time r \<noteq> None)"
| "counted (Drop r) = True"






section \<open>Example inputs\<close>

definition ex_request :: request where
  "ex_request =
     \<lparr>request_id = 1, arrival_time = 1, service_time = 5, timeout = Infinite,
      start_service_time = None, completion_time = None\<rparr>"

definition ex_idle_server :: server where
  "ex_idle_server = (new_server 0 1)\<lparr>queue := [ex_request]\<rparr>"

definition ex_busy_server :: server where
  "ex_busy_server =
     (new_server 0 1)
       \<lparr>queue := [ex_request\<lparr>timeout := Finite 3\<rparr>,
                  ex_request\<lparr>arrival_time := 4, timeout := Finite 3\<rparr>,
                  ex_request],
        current_request :=
          Some (ex_request\<lparr>timeout := Finite 0, start_service_time := Some 1,
                            completion_time := Some 6\<rparr>)\<rparr>"

definition ex_load_balancer :: load_balancer where
  "ex_load_balancer =
     \<lparr>servers = [ex_busy_server, ex_idle_server\<lparr>server_id := 1\<rparr>,
                 (new_server 2 1)\<lparr>queue := [ex_request]\<rparr>],
      algorithm = ''least_loaded'', rr_index = 0\<rparr>"

definition ex_round_robin :: load_balancer where
  "ex_round_robin =
     \<lparr>servers = [ex_busy_server, new_server 1 1], algorithm = ''round_robin'', rr_index = 0\<rparr>"

definition ex_metrics :: metrics where
  "ex_metrics =
     \<lparr>completed_requests = 4, dropped_requests = 0, total_response_time = 10,
      response_times = [4, 1, 3, 2]\<rparr>"

definition ex_engine :: engine where
  "ex_engine =
     \<lparr>arrival_rate = 1, eng_service_rate = 1, sim_duration = 3, dt = 1,
      request_timeout = Infinite, clock = 0, utilization = 1,
      load_balancer =
        \<lparr>servers = [new_server 0 1], algorithm = ''round_robin'', rr_index = 0\<rparr>,
      metrics = new_metrics, log_created = [], log_completed = []\<rparr>"

definition ex_draws :: "nat \<Rightarrow> real list" where
  "ex_draws i = (if i = 0 then [1, 5] else [])"



section \<open>Servers\<close>

subsection \<open>Advancing a server by one tick\<close>

text \<open>
  Claim C2, as amended. When the server is busy and the clock has reached the completion
  time of the request in service, \<open>tick\<close> sets that completion time to the clock, returns
  the request as completed, and in the same call starts the head of the queue, if there
  is one, with start time the clock and completion time the clock plus its service time.
  When the server is busy and the clock is before the completion time, nothing changes
  and nothing is returned. When the server is idle nothing is returned, and the head of
  the queue, if there is one, is started in the same way; only an idle server with an
  empty queue is left unchanged.
\<close>

theorem tick_cases:
  "(current_request s = Some req \<and> completion_time req = Some c \<and> c \<le> t \<and> queue s = []
      \<longrightarrow> tick s t =
            Inr (s\<lparr>completed := completed s @ [req\<lparr>completion_time := Some t\<rparr>],
                   current_request := None\<rparr>,
                 [req\<lparr>completion_time := Some t\<rparr>]))
   \<and> (current_request s = Some req \<and> completion_time req = Some c \<and> c \<le> t
        \<and> queue s = nxt # rest
      \<longrightarrow> tick s t =
            Inr (s\<lparr>completed := completed s @ [req\<lparr>completion_time := Some t\<rparr>],
                   current_request :=
                     Some (nxt\<lparr>start_service_time := Some t,
                                completion_time := Some (t + service_time nxt)\<rparr>),
                   queue := rest\<rparr>,
                 [req\<lparr>completion_time := Some t\<rparr>]))
   \<and> (current_request s = Some req \<and> completion_time req = Some c \<and> t < c
      \<longrightarrow> tick s t = Inr (s, []))
   \<and> (current_request s = None \<and> queue s = [] \<longrightarrow> tick s t = Inr (s, []))
   \<and> (current_request s = None \<and> queue s = nxt # rest
      \<longrightarrow> tick s t =
            Inr (s\<lparr>current_request :=
                     Some (nxt\<lparr>start_service_time := Some t,
                                completion_time := Some (t + service_time nxt)\<rparr>),
                   queue := rest\<rparr>, []))"
  by (simp add: tick_def tick_finish_def tick_start_def Let_def)

theorem tick_cases_witness:
  "fst (projr (tick ex_busy_server 6)) =
     ex_busy_server
       \<lparr>completed := [ex_request\<lparr>timeout := Finite 0, start_service_time := Some 1,
                                   completion_time := Some 6\<rparr>],
        current_request := Some (ex_request\<lparr>timeout := Finite 3,
                                   start_service_time := Some 6,
                                   completion_time := Some 11\<rparr>),
        queue := [ex_request\<lparr>arrival_time := 4, timeout := Finite 3\<rparr>, ex_request]\<rparr>
   \<and> tick ex_busy_server 5 = Inr (ex_busy_server, [])"
  using tick_cases [of ex_busy_server
      "ex_request\<lparr>timeout := Finite 0, start_service_time := Some 1,
                   completion_time := Some 6\<rparr>" 6 6
      "ex_request\<lparr>timeout := Finite 3\<rparr>"
      "[ex_request\<lparr>arrival_time := 4, timeout := Finite 3\<rparr>, ex_request]"]
    tick_cases [of ex_busy_server
      "ex_request\<lparr>timeout := Finite 0, start_service_time := Some 1,
                   completion_time := Some 6\<rparr>" 6 5]
  by (simp add: ex_busy_server_def ex_request_def new_server_def)

text \<open>
  Claim C2 as stated fails: it says that whenever the server is not both busy and due,
  the server is unchanged. An idle server with a waiting request starts that request.
  (Read the other way, with "otherwise" for an empty queue after a completion, it fails
  as well: the completed request is returned and the server becomes idle.)
\<close>

theorem tick_idle_counterexample:
  "current_request ex_idle_server = None
   \<and> tick ex_idle_server 2 \<noteq> Inr (ex_idle_server, [])
   \<and> tick (ex_busy_server\<lparr>queue := []\<rparr>) 6 \<noteq> Inr (ex_busy_server\<lparr>queue := []\<rparr>, [])
   \<and> tick ex_idle_server 2 =
       Inr ((new_server 0 1)
              \<lparr>current_request :=
                 Some (ex_request\<lparr>start_service_time := Some 2,
                                   completion_time := Some 7\<rparr>)\<rparr>, [])"
  by (simp add: tick_def tick_finish_def tick_start_def ex_idle_server_def new_server_def
      ex_busy_server_def ex_request_def Let_def)

subsection \<open>Evicting timed-out requests\<close>

lemma drop_loop_filter:
  "drop_loop q t a b =
     (a @ filter (\<lambda>r. is_timed_out r t) q, b @ filter (\<lambda>r. \<not> is_timed_out r t) q)"
  by (induction q arbitrary: a b) auto

lemma is_timed_out_iff:
  "is_timed_out r t \<longleftrightarrow>
     start_service_time r = None \<and> (\<exists>b. timeout r = Finite b \<and> t - arrival_time r > b)"
  by (auto simp: is_timed_out_def exceeds_def split: timeout_val.splits)

text \<open>
  Claim C3. \<open>drop_timed_out\<close> returns the waiting requests that are timed out, in queue
  order, and leaves the others in the queue in their order; it changes nothing else of
  the server, so the request in service is neither removed nor modified. A request is
  timed out exactly when it has not started service and clock minus arrival strictly
  exceeds its (finite) timeout; a request that has started service never is.
\<close>

theorem drop_timed_out_partition:
  "snd (drop_timed_out s t) = filter (\<lambda>r. is_timed_out r t) (queue s)
   \<and> fst (drop_timed_out s t) = s\<lparr>queue := filter (\<lambda>r. \<not> is_timed_out r t) (queue s)\<rparr>
   \<and> current_request (fst (drop_timed_out s t)) = current_request s
   \<and> (is_timed_out r t \<longleftrightarrow>
        start_service_time r = None
        \<and> (\<exists>b. timeout r = Finite b \<and> t - arrival_time r > b))"
  by (simp add: drop_timed_out_def drop_loop_filter is_timed_out_iff)

theorem drop_timed_out_partition_witness:
  "snd (drop_timed_out ex_busy_server 5) = [ex_request\<lparr>timeout := Finite 3\<rparr>]
   \<and> queue (fst (drop_timed_out ex_busy_server 5))
       = [ex_request\<lparr>arrival_time := 4, timeout := Finite 3\<rparr>, ex_request]
   \<and> current_request (fst (drop_timed_out ex_busy_server 5))
       = current_request ex_busy_server
   \<and> \<not> is_timed_out (the (current_request ex_busy_server)) 5"
  using drop_timed_out_partition [of ex_busy_server 5 "the (current_request ex_busy_server)"]
  by (simp add: ex_busy_server_def ex_request_def new_server_def is_timed_out_def
      exceeds_def)

section \<open>Load balancer\<close>

lemma min_loop_spec:
  assumes "best < length pre" "i = length pre" "best_key = queue_length (pre ! best)"
    "\<forall>j<length pre. best_key \<le> queue_length (pre ! j)"
    "\<forall>j<best. best_key < queue_length (pre ! j)"
  shows "min_loop rest i best best_key < length (pre @ rest)
     \<and> (\<forall>j<length (pre @ rest).
           queue_length ((pre @ rest) ! min_loop rest i best best_key)
             \<le> queue_length ((pre @ rest) ! j))
     \<and> (\<forall>j<min_loop rest i best best_key.
           queue_length ((pre @ rest) ! min_loop rest i best best_key)
             < queue_length ((pre @ rest) ! j))"
  using assms
proof (induction rest arbitrary: pre i best best_key)
  case Nil
  then show ?case by simp
next
  case (Cons s rest)
  let ?pre = "pre @ [s]"
  show ?case
  proof (cases "queue_length s < best_key")
    case True
    have a: "i < length ?pre" using Cons.prems by simp
    have b: "i + 1 = length ?pre" using Cons.prems by simp
    have c: "queue_length s = queue_length (?pre ! i)" using Cons.prems by simp
    have d: "\<forall>j<length ?pre. queue_length s \<le> queue_length (?pre ! j)"
      using Cons.prems True by (auto simp: nth_append less_Suc_eq)
    have e: "\<forall>j<i. queue_length s < queue_length (?pre ! j)"
      using Cons.prems True by (auto simp: nth_append)
    from Cons.IH[OF a b c d e] True show ?thesis by simp
  next
    case False
    have a: "best < length ?pre" using Cons.prems by simp
    have b: "i + 1 = length ?pre" using Cons.prems by simp
    have c: "best_key = queue_length (?pre ! best)" using Cons.prems by (simp add: nth_append)
    have d: "\<forall>j<length ?pre. best_key \<le> queue_length (?pre ! j)"
      using Cons.prems False by (auto simp: nth_append less_Suc_eq)
    have e: "\<forall>j<best. best_key < queue_length (?pre ! j)"
      using Cons.prems by (auto simp: nth_append)
    from Cons.IH[OF a b c d e] False show ?thesis by simp
  qed
qed

lemma least_loaded_spec:
  assumes "servers lb \<noteq> []"
  shows "\<exists>i. least_loaded lb = Inr (i, lb) \<and> i < length (servers lb)
     \<and> (\<forall>j<length (servers lb). queue_length (servers lb ! i) \<le> queue_length (servers lb ! j))
     \<and> (\<forall>j<i. queue_length (servers lb ! i) < queue_length (servers lb ! j))"
proof -
  from assms obtain s rest where sv: "servers lb = s # rest" by (cases "servers lb") auto
  have "min_loop rest 1 0 (queue_length s) < length ([s] @ rest)
     \<and> (\<forall>j<length ([s] @ rest).
           queue_length (([s] @ rest) ! min_loop rest 1 0 (queue_length s))
             \<le> queue_length (([s] @ rest) ! j))
     \<and> (\<forall>j<min_loop rest 1 0 (queue_length s).
           queue_length (([s] @ rest) ! min_loop rest 1 0 (queue_length s))
             < queue_length (([s] @ rest) ! j))"
    by (rule min_loop_spec) simp_all
  then show ?thesis using sv by (simp add: least_loaded_def)
qed

lemma round_robin_spec:
  assumes "servers lb \<noteq> []"
  shows "round_robin lb = Inr (nat (rr_index lb mod int (length (servers lb))),
                               lb\<lparr>rr_index := rr_index lb + 1\<rparr>)
     \<and> nat (rr_index lb mod int (length (servers lb))) < length (servers lb)"
  using assms by (simp add: round_robin_def nat_less_iff)

lemma dispatch_round_robin:
  assumes "servers lb \<noteq> []" "algorithm lb = ''round_robin''"
  shows "dispatch lb req =
     Inr (nat (rr_index lb mod int (length (servers lb))),
          lb\<lparr>rr_index := rr_index lb + 1,
             servers := (servers lb)[nat (rr_index lb mod int (length (servers lb))) :=
                enqueue (servers lb ! nat (rr_index lb mod int (length (servers lb)))) req]\<rparr>)"
  using assms round_robin_spec[OF assms(1)] by (simp add: dispatch_def)

lemma dispatch_least_loaded:
  assumes "servers lb \<noteq> []" "algorithm lb \<noteq> ''round_robin''"
  shows "\<exists>i. dispatch lb req =
               Inr (i, lb\<lparr>servers := (servers lb)[i := enqueue (servers lb ! i) req]\<rparr>)
     \<and> i < length (servers lb)
     \<and> (\<forall>j<length (servers lb). queue_length (servers lb ! i) \<le> queue_length (servers lb ! j))
     \<and> (\<forall>j<i. queue_length (servers lb ! i) < queue_length (servers lb ! j))"
proof -
  from least_loaded_spec[OF assms(1)] obtain i where i: "least_loaded lb = Inr (i, lb)"
    "i < length (servers lb)"
    "\<forall>j<length (servers lb). queue_length (servers lb ! i) \<le> queue_length (servers lb ! j)"
    "\<forall>j<i. queue_length (servers lb ! i) < queue_length (servers lb ! j)" by blast
  have "dispatch lb req = Inr (i, lb\<lparr>servers := (servers lb)[i := enqueue (servers lb ! i) req]\<rparr>)"
    using assms i(1) by (simp add: dispatch_def)
  with i show ?thesis by blast
qed

lemma dispatch_servers:
  assumes "dispatch lb req = Inr (i, lb')"
  shows "i < length (servers lb)
     \<and> servers lb' = (servers lb)[i := enqueue (servers lb ! i) req]
     \<and> algorithm lb' = algorithm lb"
proof -
  have ne: "servers lb \<noteq> []" using assms by (auto simp: dispatch_def split: if_splits)
  show ?thesis
  proof (cases "algorithm lb = ''round_robin''")
    case True
    from dispatch_round_robin[OF ne True, of req] round_robin_spec[OF ne] assms
    show ?thesis by auto
  next
    case False
    from dispatch_least_loaded[OF ne False, of req] assms show ?thesis by auto
  qed
qed

lemma dispatch_total:
  assumes "servers lb \<noteq> []"
  shows "\<exists>i lb'. dispatch lb req = Inr (i, lb')"
proof (cases "algorithm lb = ''round_robin''")
  case True
  from dispatch_round_robin[OF assms True] show ?thesis by blast
next
  case False
  from dispatch_least_loaded[OF assms False, of req] show ?thesis by blast
qed

subsection \<open>Configuration errors\<close>

text \<open>
  Claim C9. Constructing a load balancer with an algorithm name other than the two
  recognised ones fails (with \<^verbatim>\<open>ValueError\<close>) and builds nothing, so no dispatch can
  follow; with a recognised name it succeeds. \<open>dispatch\<close> on an empty server list fails
  (with \<^verbatim>\<open>RuntimeError\<close>). On a non-empty server list \<open>dispatch\<close> succeeds, chooses a
  position inside the list, and leaves the number of servers and the algorithm as they
  were, so the next dispatch succeeds as well.
\<close>

theorem dispatch_configuration_errors:
  "(alg \<noteq> ''round_robin'' \<and> alg \<noteq> ''least_loaded''
      \<longrightarrow> new_load_balancer svs alg = Inl ValueError)
   \<and> (alg = ''round_robin'' \<or> alg = ''least_loaded''
      \<longrightarrow> new_load_balancer svs alg = Inr \<lparr>servers = svs, algorithm = alg, rr_index = 0\<rparr>)
   \<and> (servers lb = [] \<longrightarrow> dispatch lb req = Inl RuntimeError)
   \<and> (servers lb \<noteq> [] \<longrightarrow>
        (\<exists>i lb'. dispatch lb req = Inr (i, lb') \<and> i < length (servers lb)
            \<and> length (servers lb') = length (servers lb) \<and> algorithm lb' = algorithm lb))"
proof (intro conjI impI)
  assume "alg \<noteq> ''round_robin'' \<and> alg \<noteq> ''least_loaded''"
  then show "new_load_balancer svs alg = Inl ValueError"
    by (simp add: new_load_balancer_def ALGORITHMS_def)
next
  assume "alg = ''round_robin'' \<or> alg = ''least_loaded''"
  then show "new_load_balancer svs alg = Inr \<lparr>servers = svs, algorithm = alg, rr_index = 0\<rparr>"
    by (auto simp: new_load_balancer_def ALGORITHMS_def)
next
  assume "servers lb = []"
  then show "dispatch lb req = Inl RuntimeError" by (simp add: dispatch_def)
next
  assume ne: "servers lb \<noteq> []"
  from dispatch_total[OF ne, of req] obtain i lb' where d: "dispatch lb req = Inr (i, lb')"
    by blast
  from dispatch_servers[OF d] d
  show "\<exists>i lb'. dispatch lb req = Inr (i, lb') \<and> i < length (servers lb)
            \<and> length (servers lb') = length (servers lb) \<and> algorithm lb' = algorithm lb"
    by simp
qed

theorem dispatch_configuration_errors_witness:
  "new_load_balancer [ex_idle_server] ''random'' = Inl ValueError
   \<and> new_load_balancer [ex_idle_server] ''least_loaded''
       = Inr \<lparr>servers = [ex_idle_server], algorithm = ''least_loaded'', rr_index = 0\<rparr>
   \<and> dispatch (ex_round_robin\<lparr>servers := []\<rparr>) ex_request = Inl RuntimeError
   \<and> (\<exists>i lb'. dispatch ex_round_robin ex_request = Inr (i, lb')
         \<and> i < length (servers ex_round_robin)
         \<and> length (servers lb') = length (servers ex_round_robin)
         \<and> algorithm lb' = ''round_robin'')"
  using dispatch_configuration_errors
          [of "''random''" "[ex_idle_server]" "ex_round_robin\<lparr>servers := []\<rparr>" ex_request]
        dispatch_configuration_errors
          [of "''least_loaded''" "[ex_idle_server]" ex_round_robin ex_request]
  by (simp add: ex_round_robin_def)

subsection \<open>Least-loaded policy\<close>

text \<open>
  Claim C6. Under the least-loaded policy (any algorithm value other than round robin
  takes this branch) and with a non-empty server list, \<open>dispatch\<close> succeeds and chooses
  a position whose waiting-queue length is at most that of every server, and strictly
  below that of every server at an earlier position: the first of the minimisers. The
  queue length counts waiting requests only. The request is appended to the chosen
  server's queue, and nothing else changes.
\<close>

theorem least_loaded_dispatch:
  assumes "servers lb \<noteq> []" "algorithm lb \<noteq> ''round_robin''"
  shows "\<exists>i. dispatch lb req =
               Inr (i, lb\<lparr>servers := (servers lb)[i := enqueue (servers lb ! i) req]\<rparr>)
     \<and> i < length (servers lb)
     \<and> (\<forall>j<length (servers lb).
           length (queue (servers lb ! i)) \<le> length (queue (servers lb ! j)))
     \<and> (\<forall>j<i. length (queue (servers lb ! i)) < length (queue (servers lb ! j)))"
  using dispatch_least_loaded[OF assms, of req] by (simp add: queue_length_def)

theorem least_loaded_dispatch_witness:
  "servers ex_load_balancer \<noteq> [] \<and> algorithm ex_load_balancer \<noteq> ''round_robin''
   \<and> map (\<lambda>s. length (queue s)) (servers ex_load_balancer) = [3, 1, 1]
   \<and> (\<exists>i. dispatch ex_load_balancer ex_request =
             Inr (i, ex_load_balancer
                       \<lparr>servers := (servers ex_load_balancer)
                            [i := enqueue (servers ex_load_balancer ! i) ex_request]\<rparr>)
         \<and> i < 3
         \<and> (\<forall>j<3. length (queue (servers ex_load_balancer ! i))
                     \<le> length (queue (servers ex_load_balancer ! j)))
         \<and> (\<forall>j<i. length (queue (servers ex_load_balancer ! i))
                     < length (queue (servers ex_load_balancer ! j))))"
proof -
  have a: "servers ex_load_balancer \<noteq> []" by (simp add: ex_load_balancer_def)
  have b: "algorithm ex_load_balancer \<noteq> ''round_robin''" by (simp add: ex_load_balancer_def)
  have c: "map (\<lambda>s. length (queue s)) (servers ex_load_balancer) = [3, 1, 1]"
    by (simp add: ex_load_balancer_def ex_busy_server_def ex_idle_server_def new_server_def)
  have d: "length (servers ex_load_balancer) = 3" by (simp add: ex_load_balancer_def)
  from least_loaded_dispatch [OF a b, of ex_request] a b c show ?thesis
    unfolding d by simp
qed

subsection \<open>Round-robin policy\<close>

lemma dispatch_all_round_robin:
  assumes "servers lb \<noteq> []" "algorithm lb = ''round_robin''"
  shows "\<exists>lb'. dispatch_all lb reqs =
            Inr (map (\<lambda>k. nat ((rr_index lb + int k) mod int (length (servers lb))))
                   [0..<length reqs], lb')
          \<and> rr_index lb' = rr_index lb + int (length reqs)
          \<and> length (servers lb') = length (servers lb)
          \<and> algorithm lb' = algorithm lb"
  using assms
proof (induction reqs arbitrary: lb)
  case Nil
  then show ?case by simp
next
  case (Cons r reqs)
  let ?n = "int (length (servers lb))"
  let ?i = "nat (rr_index lb mod ?n)"
  let ?lb1 = "lb\<lparr>rr_index := rr_index lb + 1,
                  servers := (servers lb)[?i := enqueue (servers lb ! ?i) r]\<rparr>"
  have d: "dispatch lb r = Inr (?i, ?lb1)"
    using dispatch_round_robin[OF Cons.prems] .
  have ne1: "servers ?lb1 \<noteq> []" using Cons.prems(1) by simp
  have alg1: "algorithm ?lb1 = ''round_robin''" using Cons.prems(2) by simp
  from Cons.IH[OF ne1 alg1] obtain lb' where
    rest: "dispatch_all ?lb1 reqs =
            Inr (map (\<lambda>k. nat ((rr_index ?lb1 + int k) mod int (length (servers ?lb1))))
                   [0..<length reqs], lb')"
    and idx: "rr_index lb' = rr_index ?lb1 + int (length reqs)"
    and len: "length (servers lb') = length (servers ?lb1)"
    and alg: "algorithm lb' = algorithm ?lb1"
    by blast
  have shift: "map (\<lambda>k. nat ((rr_index lb + int k) mod ?n)) [0..<length (r # reqs)]
      = ?i # map (\<lambda>k. nat ((rr_index ?lb1 + int k) mod int (length (servers ?lb1))))
               [0..<length reqs]"
  proof -
    have "[0..<Suc (length reqs)] = 0 # [Suc 0..<Suc (length reqs)]"
      by (rule upt_conv_Cons) simp
    also have "\<dots> = 0 # map Suc [0..<length reqs]" by (simp only: map_Suc_upt)
    finally have "[0..<length (r # reqs)] = 0 # map Suc [0..<length reqs]" by simp
    then have "map (\<lambda>k. nat ((rr_index lb + int k) mod ?n)) [0..<length (r # reqs)]
        = ?i # map ((\<lambda>k. nat ((rr_index lb + int k) mod ?n)) \<circ> Suc) [0..<length reqs]"
      by (simp only: list.map map_map) simp
    also have "(\<lambda>k. nat ((rr_index lb + int k) mod ?n)) \<circ> Suc
        = (\<lambda>k. nat ((rr_index ?lb1 + int k) mod int (length (servers ?lb1))))"
      by (rule ext) (simp add: algebra_simps)
    finally show ?thesis .
  qed
  have "dispatch_all lb (r # reqs) =
      Inr (?i # map (\<lambda>k. nat ((rr_index ?lb1 + int k) mod int (length (servers ?lb1))))
               [0..<length reqs], lb')"
    using d rest by simp
  with shift idx len alg show ?case by simp
qed

lemma rotation_inj:
  assumes "0 < n" "j < n" "k < n"
    "nat ((c + int j) mod int n) = nat ((c + int k) mod int n)"
  shows "j = k"
proof (rule ccontr)
  assume ne: "j \<noteq> k"
  have "(c + int j) mod int n = (c + int k) mod int n"
    using assms(1,4) by (simp add: nat_eq_iff)
  then have "int n dvd (c + int j) - (c + int k)" by (simp add: mod_eq_dvd_iff)
  then have dv: "int n dvd int j - int k" by simp
  have "int j - int k \<noteq> 0" using ne by simp
  with dv have "\<bar>int n\<bar> \<le> \<bar>int j - int k\<bar>" by (rule dvd_imp_le_int[rotated])
  with assms(2,3) show False by linarith
qed

lemma rotation_perm:
  assumes "0 < n"
  shows "distinct (map (\<lambda>k. nat ((c + int k) mod int n)) [0..<n])
     \<and> set (map (\<lambda>k. nat ((c + int k) mod int n)) [0..<n]) = {0..<n}"
proof -
  let ?f = "\<lambda>k. nat ((c + int k) mod int n)"
  have inj: "inj_on ?f (set [0..<n])"
    by (rule inj_onI) (use assms rotation_inj in auto)
  have dist: "distinct (map ?f [0..<n])" using inj by (simp add: distinct_map)
  have sub: "set (map ?f [0..<n]) \<subseteq> {0..<n}"
    using assms by (auto simp: nat_less_iff)
  have "card (set (map ?f [0..<n])) = n"
    using dist distinct_card[of "map ?f [0..<n]"] by simp
  then have "card (set (map ?f [0..<n])) = card {0..<n}" by simp
  with sub have "set (map ?f [0..<n]) = {0..<n}"
    by (rule card_subset_eq[OF finite_atLeastLessThan])
  with dist show ?thesis by simp
qed

lemma rotation_from_zero:
  assumes "0 < n" "c mod int n = 0"
  shows "map (\<lambda>k. nat ((c + int k) mod int n)) [0..<n] = [0..<n]"
proof -
  have "nat ((c + int k) mod int n) = k" if "k < n" for k
  proof -
    have "(c + int k) mod int n = (c mod int n + int k) mod int n"
      by (simp add: mod_add_left_eq)
    also have "\<dots> = int k" using assms(2) that by simp
    finally show ?thesis by simp
  qed
  then have "\<And>k. k \<in> set [0..<n] \<Longrightarrow> nat ((c + int k) mod int n) = k" by simp
  then show ?thesis by (rule map_idI)
qed

text \<open>
  Claim C5, as amended. Under the round-robin policy, with \<open>N > 0\<close> servers and counter
  value \<open>c\<close>, every run of consecutive dispatch calls succeeds; the \<open>k\<close>-th call (from 0)
  chooses position \<open>(c + k) mod N\<close>, whatever the queue lengths, and each call increments
  the counter. Hence \<open>N\<close> consecutive calls choose every server exactly once, in cyclic
  order starting at position \<open>c mod N\<close>; the order is the ascending one when \<open>c\<close> is a
  multiple of \<open>N\<close>, as for a new load balancer.
\<close>

theorem round_robin_cycle:
  assumes "servers lb \<noteq> []" "algorithm lb = ''round_robin''"
  shows "\<exists>lb'. dispatch_all lb reqs =
            Inr (map (\<lambda>k. nat ((rr_index lb + int k) mod int (length (servers lb))))
                   [0..<length reqs], lb')
          \<and> rr_index lb' = rr_index lb + int (length reqs)
          \<and> (length reqs = length (servers lb) \<longrightarrow>
               distinct (fst (projr (dispatch_all lb reqs)))
               \<and> set (fst (projr (dispatch_all lb reqs))) = {0..<length (servers lb)}
               \<and> (rr_index lb mod int (length (servers lb)) = 0 \<longrightarrow>
                    fst (projr (dispatch_all lb reqs)) = [0..<length (servers lb)]))"
proof -
  let ?n = "length (servers lb)"
  from dispatch_all_round_robin[OF assms, of reqs] obtain lb' where
    d: "dispatch_all lb reqs =
            Inr (map (\<lambda>k. nat ((rr_index lb + int k) mod int ?n)) [0..<length reqs], lb')"
    and idx: "rr_index lb' = rr_index lb + int (length reqs)"
    by blast
  have pos: "0 < ?n" using assms(1) by simp
  have "length reqs = ?n \<longrightarrow>
               distinct (fst (projr (dispatch_all lb reqs)))
               \<and> set (fst (projr (dispatch_all lb reqs))) = {0..<?n}
               \<and> (rr_index lb mod int ?n = 0 \<longrightarrow>
                    fst (projr (dispatch_all lb reqs)) = [0..<?n])"
    using rotation_perm[OF pos, of "rr_index lb"] rotation_from_zero[OF pos, of "rr_index lb"] d
    by simp
  with d idx show ?thesis by blast
qed

theorem round_robin_cycle_witness:
  "servers ex_round_robin \<noteq> [] \<and> algorithm ex_round_robin = ''round_robin''
   \<and> (\<exists>lb'. dispatch_all ex_round_robin [ex_request, ex_request] = Inr ([0, 1], lb')
          \<and> rr_index lb' = 2)
   \<and> map (\<lambda>s. length (queue s)) (servers ex_round_robin) = [3, 0]"
proof -
  have a: "servers ex_round_robin \<noteq> []" by (simp add: ex_round_robin_def)
  have b: "algorithm ex_round_robin = ''round_robin''" by (simp add: ex_round_robin_def)
  have c: "map (\<lambda>s. length (queue s)) (servers ex_round_robin) = [3, 0]"
    by (simp add: ex_round_robin_def ex_busy_server_def new_server_def)
  from round_robin_cycle [OF a b, of "[ex_request, ex_request]"] obtain lb' where
    d: "dispatch_all ex_round_robin [ex_request, ex_request] =
          Inr (map (\<lambda>k. nat ((rr_index ex_round_robin + int k)
                                 mod int (length (servers ex_round_robin))))
                 [0..<length [ex_request, ex_request]], lb')"
    and i: "rr_index lb' = rr_index ex_round_robin + int (length [ex_request, ex_request])"
    by blast
  have m: "map (\<lambda>k. nat ((rr_index ex_round_robin + int k)
                          mod int (length (servers ex_round_robin))))
             [0..<length [ex_request, ex_request]] = [0, 1]"
    by (simp add: ex_round_robin_def upt_rec)
  have "dispatch_all ex_round_robin [ex_request, ex_request] = Inr ([0, 1], lb')"
    using d unfolding m .
  moreover have "rr_index lb' = 2" using i by (simp add: ex_round_robin_def)
  ultimately have "\<exists>lb'. dispatch_all ex_round_robin [ex_request, ex_request]
          = Inr ([0, 1], lb') \<and> rr_index lb' = 2" by blast
  with a b c show ?thesis by simp
qed

text \<open>
  Claim C5 as stated fails for "any" \<open>N\<close> consecutive calls: after one dispatch on two
  servers the counter is 1, and the next two calls choose position 1 and then position
  0, which is not the ascending order.
\<close>

theorem round_robin_order_counterexample:
  "fst (projr (dispatch_all (ex_round_robin\<lparr>rr_index := 1\<rparr>) [ex_request, ex_request]))
     = [1, 0]
   \<and> map server_id (servers ex_round_robin) = [0, 1]
   \<and> fst (projr (dispatch_all ex_round_robin [ex_request, ex_request, ex_request]))
     = [0, 1, 0]"
  by code_simp

section \<open>Metrics\<close>

subsection \<open>Percentile\<close>

lemma py_int_nonneg: "0 \<le> x \<Longrightarrow> py_int x = \<lfloor>x\<rfloor>"
  by (simp add: py_int_def)

lemma percentile_index_in_range:
  assumes "0 \<le> p" "p \<le> 100" "0 < n"
  shows "max 0 (\<lfloor>real n * p / 100\<rfloor> - 1) < int n"
proof -
  have "real n * p \<le> real n * 100" using assms by (intro mult_left_mono) simp_all
  then have "real n * p / 100 \<le> real n" by simp
  then have "\<lfloor>real n * p / 100\<rfloor> \<le> \<lfloor>real n\<rfloor>" by (rule floor_mono)
  then have "\<lfloor>real n * p / 100\<rfloor> \<le> int n" by simp
  then show ?thesis using assms by simp
qed

text \<open>
  Claim C7. For \<open>0 \<le> p \<le> 100\<close>, \<open>percentile\<close> returns 0 when no response time is
  recorded, and otherwise the element of the ascending sort of the response times at
  index \<open>max 0 (floor (count * p / 100) - 1)\<close>; this index is always inside the list, so
  no error is raised, and the result is one of the recorded values, not an
  interpolation between them.
\<close>

theorem percentile_order_statistic:
  assumes "0 \<le> p" "p \<le> 100"
  shows "percentile m p =
     (if response_times m = [] then Inr 0
      else Inr (sort (response_times m)
                  ! nat (max 0 (\<lfloor>real (length (response_times m)) * p / 100\<rfloor> - 1))))
   \<and> (response_times m \<noteq> [] \<longrightarrow>
        nat (max 0 (\<lfloor>real (length (response_times m)) * p / 100\<rfloor> - 1))
          < length (response_times m)
        \<and> projr (percentile m p) \<in> set (response_times m))"
proof (cases "response_times m = []")
  case True
  then show ?thesis by (simp add: percentile_def)
next
  case False
  let ?n = "length (response_times m)"
  let ?i = "nat (max 0 (\<lfloor>real ?n * p / 100\<rfloor> - 1))"
  have n: "0 < ?n" using False by simp
  have nn: "0 \<le> real ?n * p / 100" using assms by simp
  have r: "max 0 (\<lfloor>real ?n * p / 100\<rfloor> - 1) < int ?n"
    using percentile_index_in_range[OF assms n] .
  have pi: "py_int (real ?n * p / 100) = \<lfloor>real ?n * p / 100\<rfloor>"
    using nn by (rule py_int_nonneg)
  have eq: "percentile m p = Inr (sort (response_times m) ! ?i)"
    using False r unfolding percentile_def Let_def length_sort pi by simp
  have lt: "?i < ?n" using r by linarith
  then have "sort (response_times m) ! ?i \<in> set (sort (response_times m))"
    by (intro nth_mem) simp
  then have mem: "projr (percentile m p) \<in> set (response_times m)" using eq by simp
  from eq lt mem False show ?thesis by simp
qed

theorem percentile_order_statistic_witness:
  "(0::real) \<le> 50 \<and> (50::real) \<le> 100 \<and> percentile ex_metrics 50 = Inr 2
   \<and> percentile ex_metrics 100 = Inr 4 \<and> percentile ex_metrics 0 = Inr 1"
  using percentile_order_statistic [of 50 ex_metrics]
    percentile_order_statistic [of 100 ex_metrics]
    percentile_order_statistic [of 0 ex_metrics]
  by (simp add: ex_metrics_def)

subsection \<open>Counters\<close>

lemma apply_call_counts:
  "total_requests (apply_call m c) = total_requests m + (if counted c then 1 else 0)
   \<and> int (length (response_times (apply_call m c))) - completed_requests (apply_call m c)
       = int (length (response_times m)) - completed_requests m"
  by (cases c) (auto simp: record_completion_def record_drop_def total_requests_def
      response_time_def split: option.splits)

lemma foldl_apply_call_counts:
  "total_requests (foldl apply_call m cs) = total_requests m + int (length (filter counted cs))
   \<and> int (length (response_times (foldl apply_call m cs)))
         - completed_requests (foldl apply_call m cs)
       = int (length (response_times m)) - completed_requests m"
proof (induction cs arbitrary: m)
  case Nil
  then show ?case by simp
next
  case (Cons c cs)
  show ?case using Cons.IH[of "apply_call m c"] apply_call_counts[of m c] by simp
qed

text \<open>
  Claim C8, as amended. After any sequence of \<open>record_completion\<close> and \<open>record_drop\<close>
  calls on a new collector, completed plus dropped equals the number of calls that were
  not skipped (a \<open>record_completion\<close> of a request without completion time is skipped
  and changes nothing), which is at most the number of requests handed over; the
  response-time sequence is as long as the completed count; and a \<open>record_drop\<close> changes
  the dropped count only.
\<close>

theorem metrics_invariant:
  "completed_requests (foldl apply_call new_metrics cs)
     + dropped_requests (foldl apply_call new_metrics cs) = int (length (filter counted cs))
   \<and> int (length (response_times (foldl apply_call new_metrics cs)))
       = completed_requests (foldl apply_call new_metrics cs)
   \<and> completed_requests (foldl apply_call new_metrics cs)
       + dropped_requests (foldl apply_call new_metrics cs) \<le> int (length cs)
   \<and> (completion_time r = None \<longrightarrow> record_completion m r = m)
   \<and> record_drop m r = m\<lparr>dropped_requests := dropped_requests m + 1\<rparr>"
proof -
  have a: "total_requests (foldl apply_call new_metrics cs) = int (length (filter counted cs))"
    and b: "int (length (response_times (foldl apply_call new_metrics cs)))
         - completed_requests (foldl apply_call new_metrics cs) = 0"
    using foldl_apply_call_counts[of new_metrics cs]
    by (simp_all add: new_metrics_def total_requests_def)
  have c: "length (filter counted cs) \<le> length cs" by simp
  have d: "completion_time r = None \<longrightarrow> record_completion m r = m"
    by (simp add: record_completion_def response_time_def)
  have e: "record_drop m r = m\<lparr>dropped_requests := dropped_requests m + 1\<rparr>"
    by (simp add: record_drop_def)
  from a b c d e show ?thesis by (simp add: total_requests_def)
qed

theorem metrics_invariant_witness:
  "foldl apply_call new_metrics
     [Completion (ex_request\<lparr>completion_time := Some 4\<rparr>), Drop ex_request,
      Completion ex_request]
   = \<lparr>completed_requests = 1, dropped_requests = 1, total_response_time = 3,
      response_times = [3]\<rparr>
   \<and> record_completion ex_metrics ex_request = ex_metrics"
  using metrics_invariant
      [of "[Completion (ex_request\<lparr>completion_time := Some 4\<rparr>), Drop ex_request,
            Completion ex_request]" ex_request ex_metrics]
  by (simp add: new_metrics_def record_completion_def record_drop_def response_time_def
      ex_request_def)

text \<open>
  Claim C8 as stated fails: a request without completion time handed to
  \<open>record_completion\<close> is a request handed to the collector, and it is counted neither
  as completed nor as dropped.
\<close>

theorem metrics_invariant_counterexample:
  "completed_requests (foldl apply_call new_metrics [Completion ex_request])
     + dropped_requests (foldl apply_call new_metrics [Completion ex_request])
   \<noteq> int (length [Completion ex_request])"
  by (simp add: record_completion_def response_time_def ex_request_def new_metrics_def)

section \<open>Simulation engine\<close>

subsection \<open>Unfolding the loops\<close>

lemma new_request_eq:
  "new_request idc a s t =
     (\<lparr>request_id = idc + 1, arrival_time = a, service_time = s, timeout = t,
       start_service_time = None, completion_time = None\<rparr>, idc + 1)"
  by (simp add: new_request_def Let_def)

lemma arrivals_loop_Cons:
  assumes "arrivals_loop (x # draws) (idc, e) = Inr r"
  shows "\<exists>i lb1. dispatch (load_balancer e)
                    (fst (new_request idc (clock e) x (request_timeout e))) = Inr (i, lb1)
     \<and> arrivals_loop draws
          (idc + 1,
           e\<lparr>load_balancer := lb1,
             log_created := log_created e
                @ [fst (new_request idc (clock e) x (request_timeout e))]\<rparr>) = Inr r"
proof (cases "dispatch (load_balancer e) (fst (new_request idc (clock e) x (request_timeout e)))")
  case (Inl err)
  with assms show ?thesis by (simp add: new_request_eq split: if_splits)
next
  case (Inr p)
  obtain i lb1 where p: "p = (i, lb1)" by (cases p)
  with assms Inr show ?thesis by (simp add: new_request_eq split: if_splits)
qed


lemma step_Inr:
  assumes "step draws (idc, e) = Inr (idc', e')"
  shows "\<exists>e2 svs3 m3 svs4 m4 lg4.
      arrivals_loop draws (idc, e\<lparr>clock := clock e + dt e\<rparr>) = Inr (idc', e2)
    \<and> evict_servers (engine_servers e2) (clock e2) (metrics e2) = (svs3, m3)
    \<and> tick_servers svs3 (clock e2) (m3, log_completed e2) = Inr (svs4, m4, lg4)
    \<and> e' = (set_servers e2 svs4)\<lparr>metrics := m4, log_completed := lg4\<rparr>"
proof (cases "arrivals_loop draws (idc, e\<lparr>clock := clock e + dt e\<rparr>)")
  case (Inl err)
  with assms show ?thesis by (simp add: step_def Let_def split: if_splits)
next
  case (Inr p)
  obtain idc2 e2 where p: "p = (idc2, e2)" by (cases p)
  obtain svs3 m3 where ev: "evict_servers (engine_servers e2) (clock e2) (metrics e2) = (svs3, m3)"
    by (cases "evict_servers (engine_servers e2) (clock e2) (metrics e2)")
  show ?thesis
  proof (cases "tick_servers svs3 (clock e2) (m3, log_completed e2)")
    case Inl2: (Inl err)
    with assms Inr p ev show ?thesis by (simp add: step_def Let_def split: if_splits)
  next
    case Inr2: (Inr q)
    obtain svs4 m4 lg4 where q: "q = (svs4, m4, lg4)" by (cases q)
    with assms Inr p ev Inr2 show ?thesis by (simp add: step_def Let_def split: if_splits)
  qed
qed

lemma run_loop_Cons:
  assumes "run_loop (ds # dss) (idc, e) = Inr (idc', e')"
  shows "\<exists>idc1 e1. step ds (idc, e) = Inr (idc1, e1) \<and> run_loop dss (idc1, e1) = Inr (idc', e')"
proof (cases "step ds (idc, e)")
  case (Inl err)
  with assms show ?thesis by simp
next
  case (Inr p)
  obtain idc1 e1 where "p = (idc1, e1)" by (cases p)
  with assms Inr show ?thesis by simp
qed

lemma run_Inr:
  assumes "run draws (idc, e) = Inr (idc', e')"
  shows "\<exists>e1. run_loop (map draws [0..<nat (py_int (sim_duration e / dt e))]) (idc, e)
                 = Inr (idc', e1)
     \<and> e' = drain_remaining e1"
proof (cases "run_loop (map draws [0..<nat (py_int (sim_duration e / dt e))]) (idc, e)")
  case (Inl err)
  with assms show ?thesis by (simp add: run_def Let_def split: if_splits)
next
  case (Inr p)
  obtain idc1 e1 where "p = (idc1, e1)" by (cases p)
  with assms Inr show ?thesis by (simp add: run_def Let_def split: if_splits)
qed


subsection \<open>Drain\<close>

lemma drain_servers_spec:
  "drain_servers svs clk (m, lg) =
     (map (\<lambda>s. s\<lparr>current_request := None\<rparr>) svs,
      foldl record_completion m
        (map (\<lambda>r. finalise r clk) (List.map_filter current_request svs)),
      lg @ map (\<lambda>r. finalise r clk) (List.map_filter current_request svs))"
proof (induction svs arbitrary: m lg)
  case Nil
  then show ?case by (simp add: List.map_filter_simps)
next
  case (Cons s svs)
  show ?case
  proof (cases "current_request s")
    case None
    then have "s\<lparr>current_request := None\<rparr> = s" by simp
    with None show ?thesis by (simp add: Cons.IH List.map_filter_simps)
  next
    case (Some req)
    then show ?thesis by (simp add: Cons.IH List.map_filter_simps Let_def)
  qed
qed

lemma record_finalised:
  "completed_requests (foldl record_completion m (map (\<lambda>r. finalise r clk) rs))
     = completed_requests m + int (length rs)"
  by (induction rs arbitrary: m)
     (simp_all add: record_completion_def response_time_def finalise_def)

text \<open>
  Claim C1, as amended. The drain step makes every server idle and leaves the waiting
  queues alone. For every server that had a request in service, in server order, it
  records that request as completed exactly once (the completed count grows by the
  number of busy servers). The recorded completion time is the scheduled one whenever
  that is set and not zero, also when it lies after the final clock value; the final
  clock value is used only for a completion time that is unset or zero.
\<close>

theorem drain_remaining_spec:
  "engine_servers (drain_remaining e)
       = map (\<lambda>s. s\<lparr>current_request := None\<rparr>) (engine_servers e)
   \<and> log_completed (drain_remaining e)
       = log_completed e
         @ map (\<lambda>r. finalise r (clock e)) (List.map_filter current_request (engine_servers e))
   \<and> metrics (drain_remaining e)
       = foldl record_completion (metrics e)
           (map (\<lambda>r. finalise r (clock e)) (List.map_filter current_request (engine_servers e)))
   \<and> completed_requests (metrics (drain_remaining e))
       = completed_requests (metrics e)
         + int (length (filter (\<lambda>s. current_request s \<noteq> None) (engine_servers e)))
   \<and> (completion_time r = Some c \<and> c \<noteq> 0 \<longrightarrow> finalise r (clock e) = r)
   \<and> (completion_time r = None \<or> completion_time r = Some 0
        \<longrightarrow> finalise r (clock e) = r\<lparr>completion_time := Some (clock e)\<rparr>)"
proof -
  have len: "length (List.map_filter current_request (engine_servers e))
      = length (filter (\<lambda>s. current_request s \<noteq> None) (engine_servers e))"
    by (simp add: List.map_filter_def)
  have a: "engine_servers (drain_remaining e)
       = map (\<lambda>s. s\<lparr>current_request := None\<rparr>) (engine_servers e)"
    by (simp add: drain_remaining_def drain_servers_spec set_servers_def engine_servers_def)
  have b: "log_completed (drain_remaining e)
       = log_completed e
         @ map (\<lambda>r. finalise r (clock e)) (List.map_filter current_request (engine_servers e))"
    by (simp add: drain_remaining_def drain_servers_spec set_servers_def)
  have c: "metrics (drain_remaining e)
       = foldl record_completion (metrics e)
           (map (\<lambda>r. finalise r (clock e)) (List.map_filter current_request (engine_servers e)))"
    by (simp add: drain_remaining_def drain_servers_spec set_servers_def)
  have d: "completed_requests (metrics (drain_remaining e))
       = completed_requests (metrics e)
         + int (length (filter (\<lambda>s. current_request s \<noteq> None) (engine_servers e)))"
    unfolding c record_finalised len ..
  have f: "completion_time r = Some c \<and> c \<noteq> 0 \<longrightarrow> finalise r (clock e) = r"
    by (simp add: finalise_def py_or_def)
  have g: "completion_time r = None \<or> completion_time r = Some 0
        \<longrightarrow> finalise r (clock e) = r\<lparr>completion_time := Some (clock e)\<rparr>"
    by (auto simp: finalise_def py_or_def)
  from a b c d f g show ?thesis by blast
qed

theorem drain_remaining_spec_witness:
  "log_completed (drain_remaining
       (set_servers (ex_engine\<lparr>clock := 3\<rparr>) [ex_busy_server, ex_idle_server]))
     = [ex_request\<lparr>timeout := Finite 0, start_service_time := Some 1,
                    completion_time := Some 6\<rparr>]
   \<and> response_times (metrics (drain_remaining
       (set_servers (ex_engine\<lparr>clock := 3\<rparr>) [ex_busy_server, ex_idle_server]))) = [5]
   \<and> map current_request (engine_servers (drain_remaining
       (set_servers (ex_engine\<lparr>clock := 3\<rparr>) [ex_busy_server, ex_idle_server])))
     = [None, None]"
  using drain_remaining_spec
    [of "set_servers (ex_engine\<lparr>clock := 3\<rparr>) [ex_busy_server, ex_idle_server]"
        "ex_request\<lparr>timeout := Finite 0, start_service_time := Some 1,
                     completion_time := Some 6\<rparr>" 6]
  by (simp add: set_servers_def engine_servers_def ex_engine_def ex_busy_server_def
      ex_idle_server_def new_server_def ex_request_def List.map_filter_simps
      record_completion_def response_time_def new_metrics_def)

text \<open>
  Claim C1 as stated fails. One server, step 1, duration 3, two arrivals in the first
  tick with service times 1 and 5: the second request starts at time 2 and is scheduled
  to complete at 7. The run ends with the clock at 3, and the drain step records that
  request with completion time 7 and response time 6, not with the final clock value.
\<close>

theorem drain_keeps_schedule_counterexample:
  "clock (snd (projr (run ex_draws (0, ex_engine)))) = 3
   \<and> map completion_time (log_completed (snd (projr (run ex_draws (0, ex_engine)))))
       = [Some 2, Some 7]
   \<and> response_times (metrics (snd (projr (run ex_draws (0, ex_engine))))) = [1, 6]"
  by code_simp

subsection \<open>Timing of completed requests\<close>





















lemma ex_new_engine: "new_engine 1 1 1 3 1 ''round_robin'' Infinite = Inr ex_engine"
  by (simp add: new_engine_def new_load_balancer_def ALGORITHMS_def ex_engine_def)


lemma ex_run: "run ex_draws (0, ex_engine) = Inr (2, snd (projr (run ex_draws (0, ex_engine))))"
  by code_simp



subsection \<open>Request identifiers\<close>

lemma arrivals_loop_ids:
  "arrivals_loop draws (idc, e) = Inr (idc', e') \<Longrightarrow>
     idc' = idc + int (length draws)
     \<and> map request_id (log_created e') = map request_id (log_created e) @ [idc + 1..idc']"
proof (induction draws arbitrary: idc e)
  case Nil
  then show ?case by simp
next
  case (Cons x draws)
  let ?req = "fst (new_request idc (clock e) x (request_timeout e))"
  from arrivals_loop_Cons[OF Cons.prems] obtain i lb1 where
    r: "arrivals_loop draws
          (idc + 1, e\<lparr>load_balancer := lb1, log_created := log_created e @ [?req]\<rparr>)
        = Inr (idc', e')"
    by blast
  from Cons.IH[OF r] have n: "idc' = idc + 1 + int (length draws)"
    and ids: "map request_id (log_created e')
        = map request_id (log_created e @ [?req]) @ [idc + 1 + 1..idc']"
    by simp_all
  have rid: "request_id ?req = idc + 1" by (simp add: new_request_eq)
  have "idc + 1 \<le> idc'" using n by simp
  then have "[idc + 1..idc'] = (idc + 1) # [idc + 1 + 1..idc']" by (rule upto_rec1)
  with n ids rid show ?case by simp
qed

lemma step_ids:
  assumes "step draws (idc, e) = Inr (idc', e')"
  shows "idc' = idc + int (length draws)
     \<and> map request_id (log_created e') = map request_id (log_created e) @ [idc + 1..idc']"
proof -
  from step_Inr[OF assms] obtain e2 svs3 m3 svs4 m4 lg4 where
    a: "arrivals_loop draws (idc, e\<lparr>clock := clock e + dt e\<rparr>) = Inr (idc', e2)"
    and e': "e' = (set_servers e2 svs4)\<lparr>metrics := m4, log_completed := lg4\<rparr>"
    by blast
  have "log_created e' = log_created e2" using e' by (simp add: set_servers_def)
  with arrivals_loop_ids[OF a] show ?thesis by simp
qed

lemma upto_append:
  assumes "a \<le> b" "b \<le> c"
  shows "[a + 1..b] @ [b + 1..c] = [a + 1..(c::int)]"
proof (cases "a = b")
  case True
  then show ?thesis by simp
next
  case False
  with assms have "a + 1 \<le> b" by simp
  from upto_split2[OF this assms(2)] show ?thesis by simp
qed

lemma run_loop_ids:
  "run_loop dss (idc, e) = Inr (idc', e') \<Longrightarrow>
     idc \<le> idc'
     \<and> map request_id (log_created e') = map request_id (log_created e) @ [idc + 1..idc']"
proof (induction dss arbitrary: idc e)
  case Nil
  then show ?case by simp
next
  case (Cons ds dss)
  from run_loop_Cons[OF Cons.prems] obtain idc1 e1 where
    s: "step ds (idc, e) = Inr (idc1, e1)"
    and r: "run_loop dss (idc1, e1) = Inr (idc', e')"
    by blast
  from step_ids[OF s] have a: "idc \<le> idc1"
    and b: "map request_id (log_created e1) = map request_id (log_created e) @ [idc + 1..idc1]"
    by simp_all
  from Cons.IH[OF r] have c: "idc1 \<le> idc'"
    and d: "map request_id (log_created e') = map request_id (log_created e1) @ [idc1 + 1..idc']"
    by simp_all
  from b d upto_append[OF a c] a c show ?case by simp
qed

lemma run_ids:
  assumes "run draws (idc, e) = Inr (idc', e')"
  shows "idc \<le> idc'
     \<and> map request_id (log_created e') = map request_id (log_created e) @ [idc + 1..idc']"
proof -
  from run_Inr[OF assms] obtain e1 where
    r: "run_loop (map draws [0..<nat (py_int (sim_duration e / dt e))]) (idc, e) = Inr (idc', e1)"
    and e': "e' = drain_remaining e1"
    by blast
  have "log_created e' = log_created e1"
    unfolding e' drain_remaining_def
    by (cases "drain_servers (engine_servers e1) (clock e1) (metrics e1, log_completed e1)")
       (simp add: set_servers_def)
  with run_loop_ids[OF r] show ?thesis by simp
qed

lemma new_engine_log:
  assumes "new_engine n lam mu dur stp alg tmo = Inr e"
  shows "log_created e = []"
proof (cases "new_load_balancer (map (\<lambda>i. new_server (int i) mu) [0..<nat n]) alg")
  case (Inl err)
  with assms show ?thesis by (simp add: new_engine_def split: if_splits)
next
  case (Inr lb)
  with assms show ?thesis by (auto simp: new_engine_def split: if_splits)
qed

text \<open>
  Claim C10. The identifier counter is state of the process, not of an engine: a new
  request gets the counter plus one, which becomes the new counter, so the identifiers
  of the requests created in a process are \<open>1, 2, 3, \<dots>\<close> in creation order, strictly
  increasing. Constructing an engine does not touch the counter. Hence, for two engines
  run one after the other in a process that starts with the counter at 0, the first
  run creates the identifiers \<open>1 .. c\<close> and the second run continues with \<open>c + 1\<close>.
\<close>

theorem request_ids_process_global:
  assumes "new_engine n1 lam1 mu1 dur1 stp1 alg1 tmo1 = Inr e1"
    "run draws1 (0, e1) = Inr (c1, e1')"
    "new_engine n2 lam2 mu2 dur2 stp2 alg2 tmo2 = Inr e2"
    "run draws2 (c1, e2) = Inr (c2, e2')"
  shows "map request_id (log_created e1') = [1..c1]
     \<and> map request_id (log_created e2') = [c1 + 1..c2]
     \<and> sorted_wrt (<) (map request_id (log_created e1' @ log_created e2'))
     \<and> request_id (fst (new_request c a s t)) = c + 1
     \<and> snd (new_request c a s t) = c + 1"
proof -
  from run_ids[OF assms(2)] new_engine_log[OF assms(1)]
  have a: "0 \<le> c1" and b: "map request_id (log_created e1') = [1..c1]" by simp_all
  from run_ids[OF assms(4)] new_engine_log[OF assms(3)]
  have c: "c1 \<le> c2" and d: "map request_id (log_created e2') = [c1 + 1..c2]" by simp_all
  have "map request_id (log_created e1' @ log_created e2') = [0 + 1..c2]"
    using b d upto_append[OF a c] by simp
  then have e: "sorted_wrt (<) (map request_id (log_created e1' @ log_created e2'))"
    by (simp only: sorted_wrt_upto)
  from b d e show ?thesis by (simp add: new_request_eq)
qed

lemma ex_run_again:
  "run ex_draws (2, ex_engine) = Inr (4, snd (projr (run ex_draws (2, ex_engine))))"
  by code_simp

theorem request_ids_process_global_witness:
  "new_engine 1 1 1 3 1 ''round_robin'' Infinite = Inr ex_engine
   \<and> run ex_draws (0, ex_engine) = Inr (2, snd (projr (run ex_draws (0, ex_engine))))
   \<and> run ex_draws (2, ex_engine) = Inr (4, snd (projr (run ex_draws (2, ex_engine))))
   \<and> map request_id (log_created (snd (projr (run ex_draws (0, ex_engine))))) = [1, 2]
   \<and> map request_id (log_created (snd (projr (run ex_draws (2, ex_engine))))) = [3, 4]"
proof -
  have u1: "[1..2] = [1, 2::int]" by (simp add: upto_rec1)
  have u2: "[2 + 1..4] = [3, 4::int]" by (simp add: upto_rec1)
  from request_ids_process_global [OF ex_new_engine ex_run ex_new_engine ex_run_again]
    ex_new_engine ex_run ex_run_again
  show ?thesis unfolding u1 u2 by blast
qed

end
